theory Spec2Isabelle
  imports Main
begin

section \<open>Python strings\<close>

text \<open>
  Python's \<open>str\<close> is a sequence of code points and \<open>len\<close> counts them. The model is
  \<^typ>\<open>string\<close>, one \<^typ>\<open>char\<close> per code point, which covers the code points below
  256. \<open>isspace\<close> lists the code points below 256 that \<open>str.isspace\<close> accepts; they are
  the characters that \<open>str.split()\<close> and \<open>str.strip()\<close> treat as whitespace.
\<close>

definition isspace :: "char \<Rightarrow> bool" where
  "isspace c =
     (let n = (of_char c :: nat)
      in (9 \<le> n \<and> n \<le> 13) \<or> (28 \<le> n \<and> n \<le> 32) \<or> n = 133 \<or> n = 160)"

text \<open>\<open>text.strip()\<close>: leading and trailing whitespace removed.\<close>

definition strip :: "string \<Rightarrow> string" where
  "strip s = rev (dropWhile isspace (rev (dropWhile isspace s)))"

text \<open>
  \<open>text.split()\<close> with no separator: the maximal runs of non-whitespace characters, in
  order. \<open>split_from w s\<close> scans \<open>s\<close> with \<open>w\<close> the word read so far.
\<close>

fun split_from :: "string \<Rightarrow> string \<Rightarrow> string list" where
  "split_from w [] = (if w = [] then [] else [w])"
| "split_from w (c # cs) =
     (if isspace c
      then (if w = [] then split_from [] cs else w # split_from [] cs)
      else split_from (w @ [c]) cs)"

definition split :: "string \<Rightarrow> string list" where
  "split s = split_from [] s"

text \<open>\<open>sep.join(xs)\<close>.\<close>

fun join :: "string \<Rightarrow> string list \<Rightarrow> string" where
  "join sep [] = []"
| "join sep [x] = x"
| "join sep (x # y # ys) = x @ sep @ join sep (y # ys)"

text \<open>
  \<open>s.split("\n")\<close>: the lines of a string, cut at every newline character. The source
  does not call it; the statements use it to read the lines of a wrapped text.
\<close>

fun split_newline :: "string \<Rightarrow> string list" where
  "split_newline [] = [[]]"
| "split_newline (c # cs) =
     (if c = CHR 0x0A then [] # split_newline cs
      else (case split_newline cs of
              [] \<Rightarrow> [[c]]
            | l # ls \<Rightarrow> (c # l) # ls))"

section \<open>Line wrapper\<close>

text \<open>
  \<open>wrap_text\<close>, lines 59 to 75. The loop state is \<open>lines\<close>, \<open>current_line\<close> and
  \<open>current_line_length\<close>. In the branch that appends the word, the source first appends and
  then evaluates \<open>1 if current_line else 0\<close>, so the test there is on the list that already
  holds the word.
\<close>

fun wrap_loop :: "int \<Rightarrow> string list \<Rightarrow> string list \<Rightarrow> int \<Rightarrow> string list \<Rightarrow> string list" where
  "wrap_loop max_chars_per_line lines current_line current_line_length [] =
     lines @ [join '' '' current_line]"
| "wrap_loop max_chars_per_line lines current_line current_line_length (word # words) =
     (if current_line_length + int (length word) + (if current_line \<noteq> [] then 1 else 0)
           \<le> max_chars_per_line
      then wrap_loop max_chars_per_line lines (current_line @ [word])
             (current_line_length + (int (length word)
                + (if current_line @ [word] \<noteq> [] then 1 else 0)))
             words
      else wrap_loop max_chars_per_line (lines @ [join '' '' current_line]) [word]
             (int (length word)) words)"

definition wrap_lines :: "string \<Rightarrow> int \<Rightarrow> string list" where
  "wrap_lines text_in max_chars_per_line = wrap_loop max_chars_per_line [] [] 0 (split text_in)"

definition wrap_text :: "string \<Rightarrow> int \<Rightarrow> string" where
  "wrap_text text_in max_chars_per_line = join [CHR 0x0A] (wrap_lines text_in max_chars_per_line)"

section \<open>Auxiliary notions for the statements\<close>

text \<open>
  A word is a non-empty string without whitespace. \<open>wrap_groups\<close> runs the loop of
  \<open>wrap_text\<close> keeping every closed line as its list of words instead of the joined
  string; \<open>wrap_loop_groups\<close> below shows that joining them gives \<open>wrap_loop\<close>.
\<close>

definition is_word :: "string \<Rightarrow> bool" where
  "is_word w = (w \<noteq> [] \<and> list_all (\<lambda>c. \<not> isspace c) w)"

fun wrap_groups :: "int \<Rightarrow> string list list \<Rightarrow> string list \<Rightarrow> int \<Rightarrow> string list \<Rightarrow> string list list" where
  "wrap_groups m gs cur n [] = gs @ [cur]"
| "wrap_groups m gs cur n (word # words) =
     (if n + int (length word) + (if cur \<noteq> [] then 1 else 0) \<le> m
      then wrap_groups m gs (cur @ [word]) (n + (int (length word) + 1)) words
      else wrap_groups m (gs @ [cur]) [word] (int (length word)) words)"

text \<open>
  The packing rule in the words of the specification, for comparison with \<open>wrap_loop\<close>:
  a word is appended to the current line while the length of the current line, plus one for
  the separator, plus the length of the word is at most the limit; otherwise a new line
  starts with the word. As in the test on line 67 of the source, no separator is counted
  before the first word of a line. The length of the current line is computed from the line
  itself.
\<close>

fun greedy_loop :: "int \<Rightarrow> string list \<Rightarrow> string list \<Rightarrow> string list \<Rightarrow> string list" where
  "greedy_loop max_chars_per_line lines current_line [] = lines @ [join '' '' current_line]"
| "greedy_loop max_chars_per_line lines current_line (word # words) =
     (if int (length (join '' '' current_line)) + (if current_line \<noteq> [] then 1 else 0)
           + int (length word) \<le> max_chars_per_line
      then greedy_loop max_chars_per_line lines (current_line @ [word]) words
      else greedy_loop max_chars_per_line (lines @ [join '' '' current_line]) [word] words)"

definition wrap_text_greedy :: "string \<Rightarrow> int \<Rightarrow> string" where
  "wrap_text_greedy text_in max_chars_per_line =
     join [CHR 0x0A] (greedy_loop max_chars_per_line [] [] (split text_in))"

section \<open>Timestamp formatter\<close>

text \<open>
  \<open>decimal n\<close> is \<open>str(n)\<close> for a natural number. \<open>format_int_zero w x\<close> is the format
  specification \<open>{x:0w}\<close> of an f-string for an integer \<open>x\<close>: decimal digits, filled with
  zeros on the left up to width \<open>w\<close>, the sign first and counted in the width; a number
  with more digits than \<open>w\<close> is printed in full.
\<close>

definition digit_char :: "nat \<Rightarrow> char" where
  "digit_char d = char_of (48 + d)"

function decimal :: "nat \<Rightarrow> string" where
  "decimal n = (if n < 10 then [digit_char n] else decimal (n div 10) @ [digit_char (n mod 10)])"
  by pat_completeness auto
termination
  by (relation "measure (\<lambda>n. n)") auto

definition format_int_zero :: "nat \<Rightarrow> int \<Rightarrow> string" where
  "format_int_zero width x =
     (if x < 0
      then CHR ''-'' # replicate (width - 1 - length (decimal (nat (- x)))) (CHR ''0'')
             @ decimal (nat (- x))
      else replicate (width - length (decimal (nat x))) (CHR ''0'') @ decimal (nat x))"

text \<open>\<open>format_timestamp\<close>, lines 31 to 39. \<open>//\<close> and \<open>%\<close> round to the floor, as \<open>div\<close> and \<open>mod\<close> do.\<close>

definition format_timestamp :: "int \<Rightarrow> string" where
  "format_timestamp milliseconds =
     (let hours = milliseconds div 3600000;
          milliseconds1 = milliseconds mod 3600000;
          minutes = milliseconds1 div 60000;
          milliseconds2 = milliseconds1 mod 60000;
          seconds = milliseconds2 div 1000;
          milliseconds3 = milliseconds2 mod 1000
      in format_int_zero 2 hours @ '':'' @ format_int_zero 2 minutes @ '':''
           @ format_int_zero 2 seconds @ '','' @ format_int_zero 3 milliseconds3)"

text \<open>Reading a string of decimal digits back, for the statements about the fields.\<close>

definition is_digit :: "char \<Rightarrow> bool" where
  "is_digit c = (48 \<le> (of_char c :: nat) \<and> (of_char c :: nat) \<le> 57)"

definition decimal_value :: "string \<Rightarrow> nat" where
  "decimal_value s = foldl (\<lambda>a c. 10 * a + ((of_char c :: nat) - 48)) 0 s"

section \<open>Segment merger\<close>

text \<open>
  A transcribed segment is a dictionary with the keys \<open>text\<close>, \<open>start\<close> and \<open>end\<close>; the
  times are floating-point seconds. A subtitle is a dictionary with the keys \<open>text\<close>,
  \<open>start_ms\<close> and \<open>end_ms\<close>. The conversion \<open>int(x * 1000)\<close> of a time to milliseconds
  is a floating-point product truncated to an integer; it is the parameter \<open>to_ms\<close> of the
  model, and the type of the times is left open. The examples below give the times in
  milliseconds and take the identity for \<open>to_ms\<close>.
\<close>

record 't segment =
  seg_text :: string
  seg_start :: 't
  seg_end :: 't

record sub =
  sub_text :: string
  start_ms :: int
  end_ms :: int

text \<open>
  Closing the accumulator, lines 111 to 112 inside the loop and 121 to 122 after it: a
  subtitle shorter than the minimum gets the end \<open>start_ms + min_sub_duration\<close>.
\<close>

definition stretch :: "int \<Rightarrow> sub \<Rightarrow> sub" where
  "stretch min_sub_duration current_sub =
     (if end_ms current_sub - start_ms current_sub < min_sub_duration
      then current_sub\<lparr>end_ms := start_ms current_sub + min_sub_duration\<rparr>
      else current_sub)"

text \<open>
  The accumulator seeded from a segment (lines 89 to 93 and 114 to 118), and one round of
  the loop, lines 96 to 118, on the state \<open>(current_sub, processed_subs)\<close>.
\<close>

definition new_sub :: "('t \<Rightarrow> int) \<Rightarrow> 't segment \<Rightarrow> sub" where
  "new_sub to_ms segment =
     \<lparr>sub_text = strip (seg_text segment),
      start_ms = to_ms (seg_start segment),
      end_ms = to_ms (seg_end segment)\<rparr>"

definition merge_step ::
  "('t \<Rightarrow> int) \<Rightarrow> int \<Rightarrow> int \<Rightarrow> int \<Rightarrow> int \<Rightarrow> sub \<times> sub list \<Rightarrow> 't segment \<Rightarrow> sub \<times> sub list" where
  "merge_step to_ms min_sub_duration max_sub_duration merge_gap_threshold max_chars_per_subtitle
       state segment =
     (let current_sub = fst state;
          processed_subs = snd state;
          next_text = strip (seg_text segment);
          next_start_ms = to_ms (seg_start segment);
          next_end_ms = to_ms (seg_end segment);
          gap_to_next = next_start_ms - end_ms current_sub;
          merged_text_length = int (length (sub_text current_sub @ '' '' @ next_text));
          merged_duration = next_end_ms - start_ms current_sub
      in if gap_to_next < merge_gap_threshold \<and>
            merged_text_length \<le> max_chars_per_subtitle \<and>
            merged_duration \<le> max_sub_duration
         then (current_sub\<lparr>sub_text := sub_text current_sub @ '' '' @ next_text,
                            end_ms := next_end_ms\<rparr>,
               processed_subs)
         else (\<lparr>sub_text = next_text, start_ms = next_start_ms, end_ms = next_end_ms\<rparr>,
               processed_subs @ [stretch min_sub_duration current_sub]))"

fun merge_loop ::
  "('t \<Rightarrow> int) \<Rightarrow> int \<Rightarrow> int \<Rightarrow> int \<Rightarrow> int \<Rightarrow> sub \<times> sub list \<Rightarrow> 't segment list \<Rightarrow> sub \<times> sub list" where
  "merge_loop to_ms min_sub_duration max_sub_duration merge_gap_threshold max_chars_per_subtitle
       state [] = state"
| "merge_loop to_ms min_sub_duration max_sub_duration merge_gap_threshold max_chars_per_subtitle
       state (segment # segments) =
     merge_loop to_ms min_sub_duration max_sub_duration merge_gap_threshold max_chars_per_subtitle
       (merge_step to_ms min_sub_duration max_sub_duration merge_gap_threshold
          max_chars_per_subtitle state segment)
       segments"

text \<open>
  \<open>post_process_segments\<close>, lines 78 to 125. The dictionary \<open>current_sub\<close> is never empty,
  so the test on line 120 always succeeds and the last accumulator is always closed.
\<close>

definition post_process_segments ::
  "('t \<Rightarrow> int) \<Rightarrow> 't segment list \<Rightarrow> int \<Rightarrow> int \<Rightarrow> int \<Rightarrow> int \<Rightarrow> sub list" where
  "post_process_segments to_ms segments min_sub_duration max_sub_duration merge_gap_threshold
       max_chars_per_subtitle =
     (case segments of
        [] \<Rightarrow> []
      | first # rest \<Rightarrow>
          (let state = merge_loop to_ms min_sub_duration max_sub_duration merge_gap_threshold
                         max_chars_per_subtitle (new_sub to_ms first, []) rest
           in snd state @ [stretch min_sub_duration (fst state)]))"

text \<open>
  The precondition on the input, as the data model states it: every segment ends no earlier
  than it starts, the starts ascend, and a segment ends no later than the next one starts.
\<close>

fun sorted_non_overlapping :: "('t \<Rightarrow> int) \<Rightarrow> 't segment list \<Rightarrow> bool" where
  "sorted_non_overlapping to_ms [] = True"
| "sorted_non_overlapping to_ms [s] = (to_ms (seg_start s) \<le> to_ms (seg_end s))"
| "sorted_non_overlapping to_ms (s # t # segs) =
     (to_ms (seg_start s) \<le> to_ms (seg_end s) \<and>
      to_ms (seg_start s) \<le> to_ms (seg_start t) \<and>
      to_ms (seg_end s) \<le> to_ms (seg_start t) \<and>
      sorted_non_overlapping to_ms (t # segs))"

section \<open>Translation and the orchestrator\<close>

text \<open>The tuning constants, lines 21 to 25.\<close>

definition MIN_SUB_DURATION_MS :: int where "MIN_SUB_DURATION_MS = 1500"
definition MAX_SUB_DURATION_MS :: int where "MAX_SUB_DURATION_MS = 7000"
definition MERGE_GAP_THRESHOLD_MS :: int where "MERGE_GAP_THRESHOLD_MS = 500"
definition MAX_CHARS_PER_LINE :: int where "MAX_CHARS_PER_LINE = 60"
definition MAX_CHARS_PER_SUBTITLE :: int where "MAX_CHARS_PER_SUBTITLE = 120"

text \<open>
  What a call of a collaborator can raise: a \<open>deepl.exceptions.DeepLException\<close>, any
  other exception derived from \<open>Exception\<close>, or an exception that derives from
  \<open>BaseException\<close> only (\<open>KeyboardInterrupt\<close>, \<open>SystemExit\<close>), which \<open>except Exception\<close>
  does not catch. The translator object is its method \<open>translate_text\<close>: from the text and
  the two language codes to the translated text, or an exception.
\<close>

datatype exn = DeepLException | OtherException | BaseExceptionOnly

type_synonym translator = "string \<Rightarrow> string \<Rightarrow> string \<Rightarrow> exn + string"

text \<open>\<open>str.upper()\<close> on language codes; only the ASCII letters are mapped.\<close>

definition upper :: "string \<Rightarrow> string" where
  "upper s =
     map (\<lambda>c. let n = (of_char c :: nat) in if 97 \<le> n \<and> n \<le> 122 then char_of (n - 32) else c) s"

text \<open>
  \<open>translate_with_deepl\<close>, lines 42 to 56. The result is \<open>Inr\<close> of the returned string when
  the function returns and \<open>Inl\<close> of the exception when one leaves it. Printing is left out.
\<close>

definition translate_with_deepl :: "string \<Rightarrow> translator \<Rightarrow> string \<Rightarrow> string \<Rightarrow> exn + string" where
  "translate_with_deepl text_in translator_obj source_lang target_lang =
     (case translator_obj text_in (upper source_lang) (upper target_lang) of
        Inr translated_text \<Rightarrow> Inr translated_text
      | Inl DeepLException \<Rightarrow> Inr (''[TRANSLATION ERROR]: '' @ text_in)
      | Inl OtherException \<Rightarrow> Inr (''[UNEXPECTED ERROR]: '' @ text_in)
      | Inl BaseExceptionOnly \<Rightarrow> Inl BaseExceptionOnly)"

text \<open>
  What line 176 writes for the subtitle with index \<open>i\<close> of \<open>enumerate\<close>, and the loop of
  lines 169 to 177 on the content \<open>f\<close> of the output file. The loop returns the content
  written and the exception that ended it, if any.
\<close>

definition srt_entry :: "nat \<Rightarrow> sub \<Rightarrow> string \<Rightarrow> string" where
  "srt_entry i sub translated =
     (let wrapped = wrap_text translated MAX_CHARS_PER_LINE;
          start = format_timestamp (start_ms sub);
          end_time = format_timestamp (end_ms sub)
      in decimal (i + 1) @ [CHR 0x0A] @ start @ '' --> '' @ end_time @ [CHR 0x0A] @ wrapped
           @ [CHR 0x0A, CHR 0x0A])"

fun write_subs :: "translator \<Rightarrow> string \<Rightarrow> string \<Rightarrow> nat \<Rightarrow> sub list \<Rightarrow> string \<Rightarrow> string \<times> exn option" where
  "write_subs translator audio_language_code subtitle_language_code i [] f = (f, None)"
| "write_subs translator audio_language_code subtitle_language_code i (sub # subs) f =
     (case translate_with_deepl (sub_text sub) translator audio_language_code
             subtitle_language_code of
        Inl e \<Rightarrow> (f, Some e)
      | Inr translated \<Rightarrow>
          write_subs translator audio_language_code subtitle_language_code (i + 1) subs
            (f @ srt_entry i sub translated))"

text \<open>
  \<open>generate_srt_subtitles_with_whisper_deepl\<close>, lines 141 to 180: the run from the point
  where \<open>temp_audio.wav\<close> has been written (lines 136 to 139). The collaborators are given
  by what their calls do: \<open>whisper.load_model\<close>, \<open>model.transcribe\<close>, the construction of
  the translator with \<open>get_usage\<close>, and \<open>translate_text\<close>. A run ends by returning, by
  \<open>sys.exit\<close> with a status, or by an exception; with it the model records whether the
  temporary audio file still exists and what was written to the subtitle file.
\<close>

datatype outcome = Returned | Exited int | Raised exn

record 't collaborators =
  load_model :: "exn option"
  transcribe :: "exn + 't segment list"
  get_usage :: "exn option"
  translate_text :: translator

record run =
  outcome :: outcome
  temp_audio_exists :: bool
  srt_file :: "string option"

definition generate_srt_subtitles_with_whisper_deepl ::
  "('t \<Rightarrow> int) \<Rightarrow> 't collaborators \<Rightarrow> string \<Rightarrow> string \<Rightarrow> run" where
  "generate_srt_subtitles_with_whisper_deepl to_ms c audio_language_code subtitle_language_code =
     (case load_model c of
        Some e \<Rightarrow> \<lparr>outcome = Raised e, temp_audio_exists = True, srt_file = None\<rparr>
      | None \<Rightarrow>
     (case transcribe c of
        Inl e \<Rightarrow> \<lparr>outcome = Raised e, temp_audio_exists = True, srt_file = None\<rparr>
      | Inr transcribed_segments \<Rightarrow>
     (let processed = post_process_segments to_ms transcribed_segments MIN_SUB_DURATION_MS
                        MAX_SUB_DURATION_MS MERGE_GAP_THRESHOLD_MS MAX_CHARS_PER_SUBTITLE
      in case get_usage c of
           Some e \<Rightarrow>
             \<lparr>outcome = (if e = BaseExceptionOnly then Raised e else Exited 1),
              temp_audio_exists = True, srt_file = None\<rparr>
         | None \<Rightarrow>
             (case write_subs (translate_text c) audio_language_code subtitle_language_code 0
                     processed [] of
                (f, Some e) \<Rightarrow> \<lparr>outcome = Raised e, temp_audio_exists = True, srt_file = Some f\<rparr>
              | (f, None) \<Rightarrow> \<lparr>outcome = Returned, temp_audio_exists = False, srt_file = Some f\<rparr>))))"

text \<open>
  The text that the orchestrator wraps and writes for a subtitle: the translation, or the
  placeholder for the kind of failure followed by the original text.
\<close>

definition translated_or_placeholder :: "translator \<Rightarrow> string \<Rightarrow> string \<Rightarrow> string \<Rightarrow> string" where
  "translated_or_placeholder translator source_lang target_lang x =
     (case translator x (upper source_lang) (upper target_lang) of
        Inr y \<Rightarrow> y
      | Inl DeepLException \<Rightarrow> ''[TRANSLATION ERROR]: '' @ x
      | Inl e \<Rightarrow> ''[UNEXPECTED ERROR]: '' @ x)"

section \<open>Splitting and joining\<close>

lemma isspace_blank: "isspace CHR '' ''"
  by (simp add: isspace_def)

lemma isspace_newline: "isspace (CHR 0x0A)"
  by (simp add: isspace_def)

lemma split_from_words:
  "list_all (\<lambda>c. \<not> isspace c) w \<Longrightarrow> list_all is_word (split_from w s)"
  by (induction w s rule: split_from.induct) (auto simp: is_word_def)

lemma split_words: "list_all is_word (split s)"
  by (simp add: split_def split_from_words)

lemma split_from_no_space:
  "list_all (\<lambda>c. \<not> isspace c) a \<Longrightarrow> split_from w a = (if w @ a = [] then [] else [w @ a])"
  by (induction a arbitrary: w) auto

lemma split_from_append_space:
  "isspace c \<Longrightarrow> split_from w (a @ c # b) = split_from w a @ split_from [] b"
  by (induction a arbitrary: w) auto

lemma split_word: "is_word w \<Longrightarrow> split w = [w]"
  by (simp add: split_def is_word_def split_from_no_space)

lemma split_join:
  "isspace c \<Longrightarrow> split (join [c] ls) = concat (map split ls)"
proof (induction "[c]" ls rule: join.induct)
  case 1
  then show ?case by (simp add: split_def)
next
  case (2 x)
  then show ?case by simp
next
  case (3 x y ys)
  then show ?case
    using split_from_append_space [of c "[]" x "join [c] (y # ys)"]
    by (simp add: split_def)
qed

lemma concat_split_words:
  "list_all is_word ws \<Longrightarrow> concat (map split ws) = ws"
  by (induction ws) (auto simp: split_word)

lemma split_join_words:
  "list_all is_word ws \<Longrightarrow> split (join '' '' ws) = ws"
  using split_join [OF isspace_blank, of ws] by (simp add: concat_split_words)

lemma split_join_groups:
  "list_all (list_all is_word) gs \<Longrightarrow> map split (map (join '' '') gs) = gs"
  by (induction gs) (auto simp: split_join_words)

text \<open>Replacing the newlines of a string by blanks does not change its words.\<close>

lemma split_from_join_lines:
  "split_from w (join '' '' (split_newline s)) = split_from w s"
proof (induction s arbitrary: w)
  case Nil
  then show ?case by simp
next
  case (Cons c cs)
  obtain l ls where l: "split_newline cs = l # ls"
    by (cases cs; cases "split_newline cs") (auto split: if_splits list.splits)
  show ?case
  proof (cases "c = CHR 0x0A")
    case True
    then show ?thesis using Cons [of "[]"] l isspace_newline isspace_blank by simp
  next
    case False
    have "join '' '' ((c # l) # ls) = c # join '' '' (l # ls)"
      by (cases ls) auto
    then show ?thesis using False l Cons by simp
  qed
qed

section \<open>The lines of a wrap\<close>

lemma wrap_loop_groups:
  "wrap_loop m (map (join '' '') gs) cur n ws = map (join '' '') (wrap_groups m gs cur n ws)"
proof (induction ws arbitrary: gs cur n)
  case Nil
  then show ?case by simp
next
  case (Cons word words)
  have closed: "map (join '' '') gs @ [join '' '' cur] = map (join '' '') (gs @ [cur])"
    by simp
  show ?case
    using Cons [of gs "cur @ [word]"] Cons [of "gs @ [cur]" "[word]"]
    unfolding wrap_loop.simps wrap_groups.simps closed by simp
qed

lemma concat_wrap_groups:
  "concat (wrap_groups m gs cur n ws) = concat gs @ cur @ ws"
  by (induction ws arbitrary: gs cur n) auto

lemma wrap_lines_groups:
  "wrap_lines t m = map (join '' '') (wrap_groups m [] [] 0 (split t))"
  using wrap_loop_groups [of m "[]"] by (simp add: wrap_lines_def)

lemma wrap_groups_words:
  "list_all (list_all is_word) (wrap_groups m [] [] 0 (split t))"
proof -
  have "list_all is_word (concat (wrap_groups m [] [] 0 (split t)))"
    by (simp add: concat_wrap_groups split_words)
  then show ?thesis by (simp add: list_all_iff)
qed

lemma split_wrap_text: "split (wrap_text t m) = split t"
proof -
  let ?gs = "wrap_groups m [] [] 0 (split t)"
  have "split (wrap_text t m) = concat (map split (map (join '' '') ?gs))"
    by (simp add: wrap_text_def wrap_lines_groups split_join [OF isspace_newline])
  also have "map split (map (join '' '') ?gs) = ?gs"
    using wrap_groups_words by (rule split_join_groups)
  finally show ?thesis by (simp add: concat_wrap_groups)
qed

text \<open>
  C9. Wrapping is idempotent under the round trip: cut the wrapped text at its newlines,
  join the lines with single blanks and wrap again with the same limit; the result is the
  first wrap. It holds for every limit, positive or not.
\<close>

theorem wrap_text_round_trip:
  "wrap_text (join '' '' (split_newline (wrap_text t m))) m = wrap_text t m"
proof -
  let ?s = "join '' '' (split_newline (wrap_text t m))"
  have "split ?s = split (wrap_text t m)"
    by (simp add: split_def split_from_join_lines)
  then have "split ?s = split t"
    by (simp only: split_wrap_text)
  then have "wrap_lines ?s m = wrap_lines t m"
    by (simp only: wrap_lines_def)
  then show ?thesis
    by (simp only: wrap_text_def)
qed

theorem wrap_text_round_trip_witness:
  "wrap_text (join '' '' (split_newline (wrap_text ''ab cd abcdefgh  ab cd ef'' 5))) 5
     = ''ab'' @ [CHR 0x0A] @ ''cd'' @ [CHR 0x0A] @ ''abcdefgh'' @ [CHR 0x0A] @ ''ab cd''
         @ [CHR 0x0A] @ ''ef''"
proof -
  have "wrap_text ''ab cd abcdefgh  ab cd ef'' 5
     = ''ab'' @ [CHR 0x0A] @ ''cd'' @ [CHR 0x0A] @ ''abcdefgh'' @ [CHR 0x0A] @ ''ab cd''
         @ [CHR 0x0A] @ ''ef''"
    by code_simp
  then show ?thesis
    using wrap_text_round_trip [of "''ab cd abcdefgh  ab cd ef''" 5] by simp
qed

section \<open>Words longer than the limit\<close>

lemma split_newline_no_newline:
  "CHR 0x0A \<notin> set x \<Longrightarrow> split_newline x = [x]"
  by (induction x) auto

lemma split_newline_append:
  "CHR 0x0A \<notin> set x \<Longrightarrow> split_newline (x @ CHR 0x0A # r) = x # split_newline r"
  by (induction x) auto

lemma split_newline_join:
  "ls \<noteq> [] \<Longrightarrow> \<forall>l\<in>set ls. CHR 0x0A \<notin> set l \<Longrightarrow> split_newline (join [CHR 0x0A] ls) = ls"
proof (induction "[CHR 0x0A]" ls rule: join.induct)
  case 1
  then show ?case by simp
next
  case (2 x)
  then show ?case by (simp add: split_newline_no_newline)
next
  case (3 x y ys)
  then show ?case by (simp add: split_newline_append)
qed

lemma set_join: "set (join sep xs) \<subseteq> set sep \<union> \<Union> (set ` set xs)"
  by (induction sep xs rule: join.induct) auto

lemma join_words_no_newline:
  assumes "list_all is_word g"
  shows "CHR 0x0A \<notin> set (join '' '' g)"
proof
  assume "CHR 0x0A \<in> set (join '' '' g)"
  then have "CHR 0x0A \<in> set '' '' \<union> \<Union> (set ` set g)"
    using set_join [of "'' ''" g] by blast
  then obtain w where "w \<in> set g" and "CHR 0x0A \<in> set w"
    by auto
  with assms have "\<not> isspace (CHR 0x0A)"
    by (auto simp: list_all_iff is_word_def)
  then show False
    by (simp add: isspace_newline)
qed

lemma wrap_groups_nonempty: "wrap_groups m gs cur n ws \<noteq> []"
  by (induction ws arbitrary: gs cur n) auto

lemma lines_of_wrap_text: "split_newline (wrap_text t m) = wrap_lines t m"
proof -
  let ?gs = "wrap_groups m [] [] 0 (split t)"
  have "CHR 0x0A \<notin> set (join '' '' g)" if "g \<in> set ?gs" for g
    using wrap_groups_words [of m t] that
    by (intro join_words_no_newline) (simp add: list_all_iff)
  then have "\<forall>l\<in>set (map (join '' '') ?gs). CHR 0x0A \<notin> set l"
    by auto
  moreover have "map (join '' '') ?gs \<noteq> []"
    by (simp add: wrap_groups_nonempty)
  ultimately show ?thesis
    unfolding wrap_text_def wrap_lines_groups by (rule split_newline_join [rotated])
qed

lemma wrap_groups_alone:
  assumes "0 \<le> n"
    and "(\<forall>w\<in>set cur. int (length w) \<le> m) \<or> (\<exists>w. cur = [w] \<and> n = int (length w))"
    and "\<forall>g\<in>set gs. \<forall>w\<in>set g. m < int (length w) \<longrightarrow> g = [w]"
  shows "\<forall>g\<in>set (wrap_groups m gs cur n ws). \<forall>w\<in>set g. m < int (length w) \<longrightarrow> g = [w]"
  using assms
proof (induction ws arbitrary: gs cur n)
  case Nil
  have "\<forall>w\<in>set cur. m < int (length w) \<longrightarrow> cur = [w]"
    using Nil(2) by fastforce
  then show ?case
    using Nil(3) by simp
next
  case (Cons word words)
  show ?case
  proof (cases "n + int (length word) + (if cur \<noteq> [] then 1 else 0) \<le> m")
    case True
    have bound: "n + int (length word) \<le> m"
      using True by (cases "cur = []") simp_all
    then have "int (length word) \<le> m"
      using Cons.prems(1) by simp
    moreover have "int (length w) \<le> m" if "w \<in> set cur" for w
    proof (cases "\<forall>w\<in>set cur. int (length w) \<le> m")
      case True
      then show ?thesis using that by simp
    next
      case False
      then obtain v where "cur = [v]" and "n = int (length v)"
        using Cons.prems(2) by blast
      then show ?thesis using that bound by simp
    qed
    ultimately have short: "\<forall>w\<in>set (cur @ [word]). int (length w) \<le> m"
      by auto
    have "\<forall>g\<in>set (wrap_groups m gs (cur @ [word]) (n + (int (length word) + 1)) words).
            \<forall>w\<in>set g. m < int (length w) \<longrightarrow> g = [w]"
    proof (rule Cons.IH)
      show "0 \<le> n + (int (length word) + 1)"
        using Cons.prems(1) by simp
      show "(\<forall>w\<in>set (cur @ [word]). int (length w) \<le> m) \<or>
            (\<exists>w. cur @ [word] = [w] \<and> n + (int (length word) + 1) = int (length w))"
        using short by (rule disjI1)
      show "\<forall>g\<in>set gs. \<forall>w\<in>set g. m < int (length w) \<longrightarrow> g = [w]"
        by (rule Cons.prems(3))
    qed
    then show ?thesis
      using True by (simp only: wrap_groups.simps if_True)
  next
    case False
    have "\<forall>w\<in>set cur. m < int (length w) \<longrightarrow> cur = [w]"
      using Cons.prems(2) by fastforce
    then have closed: "\<forall>g\<in>set (gs @ [cur]). \<forall>w\<in>set g. m < int (length w) \<longrightarrow> g = [w]"
      using Cons.prems(3) by simp
    have "\<forall>g\<in>set (wrap_groups m (gs @ [cur]) [word] (int (length word)) words).
            \<forall>w\<in>set g. m < int (length w) \<longrightarrow> g = [w]"
    proof (rule Cons.IH)
      show "0 \<le> int (length word)"
        by simp
      show "(\<forall>w\<in>set [word]. int (length w) \<le> m) \<or>
            (\<exists>w. [word] = [w] \<and> int (length word) = int (length w))"
        by simp
      show "\<forall>g\<in>set (gs @ [cur]). \<forall>w\<in>set g. m < int (length w) \<longrightarrow> g = [w]"
        by (rule closed)
    qed
    then show ?thesis
      using False by (simp only: wrap_groups.simps if_False)
  qed
qed

text \<open>
  C5. A word of the text that is longer than the limit is a line of the wrapped text by
  itself: the word is one of the lines, whole, and every line that holds the word among its
  words is that word and nothing else. It holds for every limit.
\<close>

theorem wrap_text_long_word_alone:
  assumes "w \<in> set (split t)" and "m < int (length w)"
  shows "w \<in> set (split_newline (wrap_text t m)) \<and>
         (\<forall>l\<in>set (split_newline (wrap_text t m)). w \<in> set (split l) \<longrightarrow> l = w)"
proof -
  let ?gs = "wrap_groups m [] [] 0 (split t)"
  have lines: "split_newline (wrap_text t m) = map (join '' '') ?gs"
    by (simp add: lines_of_wrap_text wrap_lines_groups)
  have alone: "\<forall>g\<in>set ?gs. \<forall>w\<in>set g. m < int (length w) \<longrightarrow> g = [w]"
    by (rule wrap_groups_alone) simp_all
  have "w \<in> set (concat ?gs)"
    using assms(1) by (simp add: concat_wrap_groups)
  then obtain g where g: "g \<in> set ?gs" "w \<in> set g"
    by auto
  then have "g = [w]"
    using alone assms(2) by blast
  then have "w \<in> set (map (join '' '') ?gs)"
    using g(1) by force
  moreover have "l = w" if l: "l \<in> set (map (join '' '') ?gs)" "w \<in> set (split l)" for l
  proof -
    obtain h where h: "h \<in> set ?gs" "l = join '' '' h"
      using l(1) by auto
    then have "split l = h"
      using wrap_groups_words [of m t] by (simp add: list_all_iff split_join_words)
    then have "h = [w]"
      using alone h(1) l(2) assms(2) by blast
    then show ?thesis
      using h(2) by simp
  qed
  ultimately show ?thesis
    unfolding lines by blast
qed

theorem wrap_text_long_word_alone_witness:
  "''abcdefgh'' \<in> set (split ''ab abcdefgh cd'') \<and> (5::int) < int (length ''abcdefgh'') \<and>
   split_newline (wrap_text ''ab abcdefgh cd'' 5) = [''ab'', ''abcdefgh'', ''cd''] \<and>
   ''abcdefgh'' \<in> set (split_newline (wrap_text ''ab abcdefgh cd'' 5))"
proof -
  have a: "''abcdefgh'' \<in> set (split ''ab abcdefgh cd'')"
    by code_simp
  have b: "(5::int) < int (length ''abcdefgh'')"
    by simp
  have c: "split_newline (wrap_text ''ab abcdefgh cd'' 5) = [''ab'', ''abcdefgh'', ''cd'']"
    by code_simp
  note d = wrap_text_long_word_alone [OF a b, THEN conjunct1]
  show ?thesis
    by (rule conjI [OF a conjI [OF b conjI [OF c d]]])
qed

section \<open>The separator counted once too often\<close>

text \<open>
  C4. The claim is that a word joins the current line exactly while the length of the line,
  one separator and the word fit in the limit. The source counts the separator after the
  word has been appended (line 69), so the first word of the text is counted with a
  separator that is not there, and the first line is packed against the limit minus one.
  At the text \<open>ab cd\<close> with limit 5, the line \<open>ab cd\<close> has length 5 and fits, the
  rule of the specification keeps it whole, and \<open>wrap_text\<close> breaks it. The same happens
  at the limit of 60 that the orchestrator uses, to a text of 29, 1 and 30 characters.
\<close>

theorem wrap_text_first_line_off_by_one:
  "wrap_text ''ab cd'' 5 = ''ab'' @ [CHR 0x0A] @ ''cd'' \<and>
   wrap_text_greedy ''ab cd'' 5 = ''ab cd'' \<and>
   int (length ''ab'') + 1 + int (length ''cd'') \<le> 5 \<and>
   wrap_text ''aaaaaaaaaaaaaaaaaaaaaaaaaaaaa bbbbbbbbbbbbbbbbbbbbbbbbbbbbbb'' MAX_CHARS_PER_LINE
     = ''aaaaaaaaaaaaaaaaaaaaaaaaaaaaa'' @ [CHR 0x0A] @ ''bbbbbbbbbbbbbbbbbbbbbbbbbbbbbb'' \<and>
   wrap_text_greedy ''aaaaaaaaaaaaaaaaaaaaaaaaaaaaa bbbbbbbbbbbbbbbbbbbbbbbbbbbbbb'' MAX_CHARS_PER_LINE
     = ''aaaaaaaaaaaaaaaaaaaaaaaaaaaaa bbbbbbbbbbbbbbbbbbbbbbbbbbbbbb'' \<and>
   int (length ''aaaaaaaaaaaaaaaaaaaaaaaaaaaaa bbbbbbbbbbbbbbbbbbbbbbbbbbbbbb'') = MAX_CHARS_PER_LINE"
proof -
  have "wrap_text ''ab cd'' 5 = ''ab'' @ [CHR 0x0A] @ ''cd''"
    by code_simp
  moreover have "wrap_text_greedy ''ab cd'' 5 = ''ab cd''"
    by code_simp
  moreover have "wrap_text ''aaaaaaaaaaaaaaaaaaaaaaaaaaaaa bbbbbbbbbbbbbbbbbbbbbbbbbbbbbb'' MAX_CHARS_PER_LINE
     = ''aaaaaaaaaaaaaaaaaaaaaaaaaaaaa'' @ [CHR 0x0A] @ ''bbbbbbbbbbbbbbbbbbbbbbbbbbbbbb''"
    by code_simp
  moreover have "wrap_text_greedy ''aaaaaaaaaaaaaaaaaaaaaaaaaaaaa bbbbbbbbbbbbbbbbbbbbbbbbbbbbbb'' MAX_CHARS_PER_LINE
     = ''aaaaaaaaaaaaaaaaaaaaaaaaaaaaa bbbbbbbbbbbbbbbbbbbbbbbbbbbbbb''"
    by code_simp
  moreover have "int (length ''aaaaaaaaaaaaaaaaaaaaaaaaaaaaa bbbbbbbbbbbbbbbbbbbbbbbbbbbbbb'') = MAX_CHARS_PER_LINE"
    by (simp add: MAX_CHARS_PER_LINE_def)
  ultimately show ?thesis
    by simp
qed

section \<open>Fields of a timestamp\<close>

declare decimal.simps [simp del]

lemma of_char_digit_char: "d < 10 \<Longrightarrow> (of_char (digit_char d) :: nat) = 48 + d"
  by (simp add: digit_char_def)

lemma is_digit_digit_char: "d < 10 \<Longrightarrow> is_digit (digit_char d)"
  by (simp add: is_digit_def of_char_digit_char)

lemma decimal_digits: "list_all is_digit (decimal n)"
proof (induction n rule: decimal.induct)
  case (1 n)
  show ?case
  proof (cases "n < 10")
    case True
    then show ?thesis
      by (subst decimal.simps) (simp add: is_digit_digit_char)
  next
    case False
    have "n mod 10 < 10" by simp
    then have "is_digit (digit_char (n mod 10))"
      by (rule is_digit_digit_char)
    then show ?thesis
      using False 1 by (subst decimal.simps) simp
  qed
qed

lemma decimal_value_snoc:
  "decimal_value (s @ [c]) = 10 * decimal_value s + ((of_char c :: nat) - 48)"
  by (simp add: decimal_value_def)

lemma decimal_value_decimal: "decimal_value (decimal n) = n"
proof (induction n rule: decimal.induct)
  case (1 n)
  show ?case
  proof (cases "n < 10")
    case True
    then show ?thesis
      by (subst decimal.simps) (simp add: decimal_value_def of_char_digit_char)
  next
    case False
    then show ?thesis
      using 1 by (subst decimal.simps) (simp add: decimal_value_snoc of_char_digit_char)
  qed
qed

lemma decimal_value_zeros: "decimal_value (replicate k (CHR ''0'') @ s) = decimal_value s"
proof -
  have "foldl (\<lambda>a c. 10 * a + ((of_char c :: nat) - 48)) 0 (replicate k (CHR ''0'')) = 0"
    by (induction k) simp_all
  then show ?thesis
    by (simp add: decimal_value_def)
qed

lemma length_decimal_1: "n < 10 \<Longrightarrow> length (decimal n) = 1"
  by (subst decimal.simps) simp

lemma length_decimal_2: "n < 100 \<Longrightarrow> length (decimal n) \<le> 2"
  by (subst decimal.simps) (simp add: length_decimal_1)

lemma length_decimal_3: "n < 1000 \<Longrightarrow> length (decimal n) \<le> 3"
proof -
  assume "n < 1000"
  then have "n div 10 < 100" by simp
  then show ?thesis
    using length_decimal_2 [of "n div 10"] by (subst decimal.simps) simp
qed

lemma mod_mult_div: "0 < b \<Longrightarrow> 0 \<le> c \<Longrightarrow> (a mod (b * c)) div b = a div b mod c" for a b c :: int
  by (simp add: zmod_zmult2_eq)

lemma zeros_digits: "list_all is_digit (replicate k (CHR ''0''))"
  by (induction k) (simp_all add: is_digit_def)

lemma format_int_zero_digits: "0 \<le> x \<Longrightarrow> list_all is_digit (format_int_zero w x)"
  by (simp add: format_int_zero_def decimal_digits zeros_digits)

lemma format_int_zero_value: "0 \<le> x \<Longrightarrow> int (decimal_value (format_int_zero w x)) = x"
  by (simp add: format_int_zero_def decimal_value_zeros decimal_value_decimal)

lemma format_int_zero_length:
  "0 \<le> x \<Longrightarrow> length (format_int_zero w x) = max w (length (decimal (nat x)))"
  by (simp add: format_int_zero_def)

lemma format_int_zero_2: "0 \<le> x \<Longrightarrow> x < 100 \<Longrightarrow> length (format_int_zero 2 x) = 2"
  using length_decimal_2 [of "nat x"] by (simp add: format_int_zero_length)

lemma format_int_zero_3: "0 \<le> x \<Longrightarrow> x < 1000 \<Longrightarrow> length (format_int_zero 3 x) = 3"
  using length_decimal_3 [of "nat x"] by (simp add: format_int_zero_length)

lemma minutes_field: "(ms mod 3600000) div 60000 = ms div 60000 mod 60" for ms :: int
  using mod_mult_div [of 60000 60 ms] by simp

lemma seconds_field: "((ms mod 3600000) mod 60000) div 1000 = ms div 1000 mod 60" for ms :: int
  using mod_mult_div [of 1000 60 ms] by (simp add: mod_mod_cancel)

lemma milliseconds_field: "((ms mod 3600000) mod 60000) mod 1000 = ms mod 1000" for ms :: int
  by (simp add: mod_mod_cancel)

lemma format_timestamp_eq:
  "format_timestamp ms =
     format_int_zero 2 (ms div 3600000) @ '':'' @ format_int_zero 2 (ms div 60000 mod 60) @ '':''
       @ format_int_zero 2 (ms div 1000 mod 60) @ '','' @ format_int_zero 3 (ms mod 1000)"
  unfolding format_timestamp_def Let_def minutes_field seconds_field milliseconds_field ..

text \<open>
  C8. For a non-negative number of milliseconds the result is \<open>HH:MM:SS,mmm\<close>: four
  fields of decimal digits separated by two colons and a comma, the hours with at least two
  digits (exactly two below 100 hours), minutes and seconds with exactly two, milliseconds
  with exactly three. Read back as numbers, the fields are the hours, the minutes within the
  hour, the seconds within the minute and the milliseconds within the second; the hours are
  the whole quotient by 3600000, whatever its size. The two examples of the specification
  are the last two conjuncts.
\<close>

theorem format_timestamp_fields:
  assumes "0 \<le> ms"
  shows "(\<exists>hh mm ss mmm.
            format_timestamp ms = hh @ '':'' @ mm @ '':'' @ ss @ '','' @ mmm \<and>
            2 \<le> length hh \<and> (ms div 3600000 < 100 \<longrightarrow> length hh = 2) \<and>
            length mm = 2 \<and> length ss = 2 \<and> length mmm = 3 \<and>
            list_all is_digit (hh @ mm @ ss @ mmm) \<and>
            int (decimal_value hh) = ms div 3600000 \<and>
            int (decimal_value mm) = ms div 60000 mod 60 \<and>
            int (decimal_value ss) = ms div 1000 mod 60 \<and>
            int (decimal_value mmm) = ms mod 1000) \<and>
         format_timestamp 0 = ''00:00:00,000'' \<and>
         format_timestamp 3661005 = ''01:01:01,005''"
proof -
  let ?h = "ms div 3600000" and ?m = "ms div 60000 mod 60"
  let ?s = "ms div 1000 mod 60" and ?r = "ms mod 1000"
  have h: "0 \<le> ?h"
    using assms by (simp add: pos_imp_zdiv_nonneg_iff)
  have m: "0 \<le> ?m" "?m < 100" and s: "0 \<le> ?s" "?s < 100" and r: "0 \<le> ?r" "?r < 1000"
    by (simp_all add: order_less_trans [OF pos_mod_bound])
  have "2 \<le> length (format_int_zero 2 ?h)"
    using h by (simp add: format_int_zero_length)
  moreover have "?h < 100 \<longrightarrow> length (format_int_zero 2 ?h) = 2"
    using h by (simp add: format_int_zero_2)
  moreover have "list_all is_digit
      (format_int_zero 2 ?h @ format_int_zero 2 ?m @ format_int_zero 2 ?s @ format_int_zero 3 ?r)"
    using h m(1) s(1) r(1) by (simp add: format_int_zero_digits)
  ultimately have fields: "\<exists>hh mm ss mmm.
            format_timestamp ms = hh @ '':'' @ mm @ '':'' @ ss @ '','' @ mmm \<and>
            2 \<le> length hh \<and> (ms div 3600000 < 100 \<longrightarrow> length hh = 2) \<and>
            length mm = 2 \<and> length ss = 2 \<and> length mmm = 3 \<and>
            list_all is_digit (hh @ mm @ ss @ mmm) \<and>
            int (decimal_value hh) = ms div 3600000 \<and>
            int (decimal_value mm) = ms div 60000 mod 60 \<and>
            int (decimal_value ss) = ms div 1000 mod 60 \<and>
            int (decimal_value mmm) = ms mod 1000"
    using format_timestamp_eq [of ms] format_int_zero_2 [OF m] format_int_zero_2 [OF s]
      format_int_zero_3 [OF r] format_int_zero_value [OF h] format_int_zero_value [OF m(1)]
      format_int_zero_value [OF s(1)] format_int_zero_value [OF r(1)]
    by blast
  have zero: "format_timestamp 0 = ''00:00:00,000''"
    by code_simp
  have example: "format_timestamp 3661005 = ''01:01:01,005''"
    by code_simp
  from fields zero example show ?thesis
    by (intro conjI)
qed

theorem format_timestamp_fields_witness:
  "(0::int) \<le> 360000000 \<and> format_timestamp 360000000 = ''100:00:00,000'' \<and>
   (\<exists>hh mm ss mmm.
      format_timestamp 360000000 = hh @ '':'' @ mm @ '':'' @ ss @ '','' @ mmm \<and>
      2 \<le> length hh \<and> length mm = 2 \<and> length ss = 2 \<and> length mmm = 3 \<and>
      int (decimal_value hh) = 100)"
proof -
  have a: "(0::int) \<le> 360000000"
    by simp
  have b: "format_timestamp 360000000 = ''100:00:00,000''"
    by code_simp
  have "(360000000::int) div 3600000 = 100"
    by simp
  then have c: "\<exists>hh mm ss mmm.
      format_timestamp 360000000 = hh @ '':'' @ mm @ '':'' @ ss @ '','' @ mmm \<and>
      2 \<le> length hh \<and> length mm = 2 \<and> length ss = 2 \<and> length mmm = 3 \<and>
      int (decimal_value hh) = 100"
    using format_timestamp_fields [OF a] by metis
  show ?thesis
    by (rule conjI [OF a conjI [OF b c]])
qed


section \<open>The sweep of the merger\<close>

lemma merge_loop_snoc:
  "merge_loop to_ms mn mx thr mc state (segments @ [segment]) =
     merge_step to_ms mn mx thr mc (merge_loop to_ms mn mx thr mc state segments) segment"
  by (induction segments arbitrary: state) simp_all

lemma start_ms_stretch: "start_ms (stretch mn c) = start_ms c"
  by (simp add: stretch_def)

lemma sub_text_stretch: "sub_text (stretch mn c) = sub_text c"
  by (simp add: stretch_def)

lemma duration_stretch: "mn \<le> end_ms (stretch mn c) - start_ms (stretch mn c)"
  by (simp add: stretch_def)

text \<open>The two outcomes of one round.\<close>

lemma merge_step_merge:
  assumes "to_ms (seg_start s) - end_ms cur < thr"
    and "int (length (sub_text cur @ '' '' @ strip (seg_text s))) \<le> mc"
    and "to_ms (seg_end s) - start_ms cur \<le> mx"
  shows "merge_step to_ms mn mx thr mc (cur, out) s =
           (cur\<lparr>sub_text := sub_text cur @ '' '' @ strip (seg_text s),
                end_ms := to_ms (seg_end s)\<rparr>, out)"
  using assms by (simp add: merge_step_def)

lemma merge_step_cut:
  assumes "\<not> (to_ms (seg_start s) - end_ms cur < thr \<and>
              int (length (sub_text cur @ '' '' @ strip (seg_text s))) \<le> mc \<and>
              to_ms (seg_end s) - start_ms cur \<le> mx)"
  shows "merge_step to_ms mn mx thr mc (cur, out) s = (new_sub to_ms s, out @ [stretch mn cur])"
  using assms by (auto simp add: merge_step_def new_sub_def)

text \<open>
  C1. Let a sweep over the segments \<open>first # pre\<close> have left the accumulator \<open>cur\<close>
  and the output \<open>out\<close>, and let \<open>s\<close> be the next segment. The state after \<open>s\<close> is the
  merged one (the trimmed text of \<open>s\<close> appended after a single blank, the end moved to the
  end of \<open>s\<close>, the output unchanged) if and only if the gap is below the threshold, the
  merged text has at most \<open>mc\<close> characters and the merged duration is at most \<open>mx\<close>.
  Otherwise the accumulator is closed and a new one starts from \<open>s\<close>; in particular this
  is what happens whenever the gap reaches the threshold.
\<close>

theorem merge_iff_three_guards:
  assumes "merge_loop to_ms mn mx thr mc (new_sub to_ms first, []) pre = (cur, out)"
  shows "(merge_loop to_ms mn mx thr mc (new_sub to_ms first, []) (pre @ [s]) =
            (cur\<lparr>sub_text := sub_text cur @ '' '' @ strip (seg_text s),
                 end_ms := to_ms (seg_end s)\<rparr>, out))
         = (to_ms (seg_start s) - end_ms cur < thr \<and>
            int (length (sub_text cur @ '' '' @ strip (seg_text s))) \<le> mc \<and>
            to_ms (seg_end s) - start_ms cur \<le> mx) \<and>
         (\<not> (to_ms (seg_start s) - end_ms cur < thr \<and>
             int (length (sub_text cur @ '' '' @ strip (seg_text s))) \<le> mc \<and>
             to_ms (seg_end s) - start_ms cur \<le> mx) \<longrightarrow>
          merge_loop to_ms mn mx thr mc (new_sub to_ms first, []) (pre @ [s]) =
            (new_sub to_ms s, out @ [stretch mn cur])) \<and>
         (thr \<le> to_ms (seg_start s) - end_ms cur \<longrightarrow>
          merge_loop to_ms mn mx thr mc (new_sub to_ms first, []) (pre @ [s]) =
            (new_sub to_ms s, out @ [stretch mn cur]))"
proof -
  let ?guards = "to_ms (seg_start s) - end_ms cur < thr \<and>
            int (length (sub_text cur @ '' '' @ strip (seg_text s))) \<le> mc \<and>
            to_ms (seg_end s) - start_ms cur \<le> mx"
  have step: "merge_loop to_ms mn mx thr mc (new_sub to_ms first, []) (pre @ [s]) =
                merge_step to_ms mn mx thr mc (cur, out) s"
    by (simp only: merge_loop_snoc assms)
  show ?thesis
  proof (cases ?guards)
    case True
    then show ?thesis
      unfolding step by (simp add: merge_step_merge)
  next
    case False
    have "merge_step to_ms mn mx thr mc (cur, out) s = (new_sub to_ms s, out @ [stretch mn cur])"
      using False by (rule merge_step_cut)
    then show ?thesis
      unfolding step using False by simp
  qed
qed

theorem merge_iff_three_guards_witness:
  "merge_loop (\<lambda>x. x) 1500 7000 500 120
     (new_sub (\<lambda>x. x) \<lparr>seg_text = ''ok'', seg_start = 0, seg_end = 1000\<rparr>, []) []
     = (\<lparr>sub_text = ''ok'', start_ms = 0, end_ms = 1000\<rparr>, []) \<and>
   merge_loop (\<lambda>x. x) 1500 7000 500 120
     (new_sub (\<lambda>x. x) \<lparr>seg_text = ''ok'', seg_start = 0, seg_end = 1000\<rparr>, [])
     ([] @ [\<lparr>seg_text = ''go'', seg_start = 1200, seg_end = 1900\<rparr>])
     = (\<lparr>sub_text = ''ok go'', start_ms = 0, end_ms = 1900\<rparr>, []) \<and>
   merge_loop (\<lambda>x. x) 1500 7000 100 120
     (new_sub (\<lambda>x. x) \<lparr>seg_text = ''ok'', seg_start = 0, seg_end = 1000\<rparr>, [])
     ([] @ [\<lparr>seg_text = ''go'', seg_start = 1200, seg_end = 1900\<rparr>])
     = (\<lparr>sub_text = ''go'', start_ms = 1200, end_ms = 1900\<rparr>,
        [\<lparr>sub_text = ''ok'', start_ms = 0, end_ms = 1500\<rparr>])"
proof -
  let ?first = "\<lparr>seg_text = ''ok'', seg_start = 0::int, seg_end = 1000\<rparr>"
  let ?s = "\<lparr>seg_text = ''go'', seg_start = 1200::int, seg_end = 1900\<rparr>"
  let ?cur = "\<lparr>sub_text = ''ok'', start_ms = 0, end_ms = 1000\<rparr>"
  have a: "merge_loop (\<lambda>x. x) 1500 7000 500 120 (new_sub (\<lambda>x. x) ?first, []) [] = (?cur, [])"
    by (simp add: new_sub_def strip_def isspace_def)
  have b: "merge_loop (\<lambda>x. x) 1500 7000 100 120 (new_sub (\<lambda>x. x) ?first, []) [] = (?cur, [])"
    by (simp add: new_sub_def strip_def isspace_def)
  have t: "strip ''go'' = ''go''"
    by (simp add: strip_def isspace_def)
  have "merge_loop (\<lambda>x. x) 1500 7000 500 120 (new_sub (\<lambda>x. x) ?first, []) ([] @ [?s])
          = (\<lparr>sub_text = ''ok go'', start_ms = 0, end_ms = 1900\<rparr>, [])"
    using merge_iff_three_guards [OF a, of ?s] by (simp add: t)
  moreover have "merge_loop (\<lambda>x. x) 1500 7000 100 120 (new_sub (\<lambda>x. x) ?first, []) ([] @ [?s])
          = (\<lparr>sub_text = ''go'', start_ms = 1200, end_ms = 1900\<rparr>,
             [\<lparr>sub_text = ''ok'', start_ms = 0, end_ms = 1500\<rparr>])"
    using merge_iff_three_guards [OF b, of ?s] by (simp add: t new_sub_def stretch_def)
  ultimately show ?thesis
    using a by (intro conjI)
qed

section \<open>Durations of the emitted subtitles\<close>

lemma merge_step_closed:
  assumes "\<forall>r\<in>set (snd state). mn \<le> end_ms r - start_ms r"
  shows "\<forall>r\<in>set (snd (merge_step to_ms mn mx thr mc state s)). mn \<le> end_ms r - start_ms r"
  using assms by (simp add: merge_step_def Let_def duration_stretch)

lemma merge_loop_closed:
  assumes "\<forall>r\<in>set (snd state). mn \<le> end_ms r - start_ms r"
  shows "\<forall>r\<in>set (snd (merge_loop to_ms mn mx thr mc state segs)). mn \<le> end_ms r - start_ms r"
  using assms
proof (induction segs arbitrary: state)
  case Nil
  then show ?case by simp
next
  case (Cons s segs)
  show ?case
    unfolding merge_loop.simps
    by (rule Cons.IH) (rule merge_step_closed [OF Cons.prems])
qed

text \<open>
  C2. Every subtitle in the output lasts at least \<open>min_sub_duration\<close>, whatever the input
  and whatever the maximum: a subtitle closed with a shorter duration has its end set to
  \<open>start_ms + min_sub_duration\<close>, a longer one is left as it is, and the maximum plays no
  part, so with a minimum above the maximum every emitted subtitle exceeds the maximum.
\<close>

theorem emitted_duration_at_least_min:
  "(\<forall>r\<in>set (post_process_segments to_ms segs mn mx thr mc). mn \<le> end_ms r - start_ms r) \<and>
   (\<forall>r\<in>set (post_process_segments to_ms segs mn mx thr mc).
      mx < mn \<longrightarrow> mx < end_ms r - start_ms r) \<and>
   (end_ms c - start_ms c < mn \<longrightarrow> stretch mn c = c\<lparr>end_ms := start_ms c + mn\<rparr>) \<and>
   (mn \<le> end_ms c - start_ms c \<longrightarrow> stretch mn c = c)"
proof -
  have all: "\<forall>r\<in>set (post_process_segments to_ms segs mn mx thr mc). mn \<le> end_ms r - start_ms r"
  proof (cases segs)
    case Nil
    then show ?thesis by (simp add: post_process_segments_def)
  next
    case (Cons first rest)
    have "\<forall>r\<in>set (snd (merge_loop to_ms mn mx thr mc (new_sub to_ms first, []) rest)).
            mn \<le> end_ms r - start_ms r"
      by (rule merge_loop_closed) simp
    then show ?thesis
      using Cons by (simp add: post_process_segments_def Let_def duration_stretch)
  qed
  then have "\<forall>r\<in>set (post_process_segments to_ms segs mn mx thr mc).
      mx < mn \<longrightarrow> mx < end_ms r - start_ms r"
    by fastforce
  with all show ?thesis
    by (simp add: stretch_def)
qed

theorem emitted_duration_at_least_min_witness:
  "post_process_segments (\<lambda>x. x)
     [\<lparr>seg_text = ''ok'', seg_start = 0, seg_end = 1000\<rparr>,
      \<lparr>seg_text = ''go'', seg_start = 1200, seg_end = 1900\<rparr>] 1500 1000 100 120
     = [\<lparr>sub_text = ''ok'', start_ms = 0, end_ms = 1500\<rparr>,
        \<lparr>sub_text = ''go'', start_ms = 1200, end_ms = 2700\<rparr>] \<and>
   list_all (\<lambda>r. 1500 \<le> end_ms r - start_ms r \<and> 1000 < end_ms r - start_ms r)
     [\<lparr>sub_text = ''ok'', start_ms = 0, end_ms = 1500\<rparr>,
      \<lparr>sub_text = ''go'', start_ms = 1200, end_ms = 2700\<rparr>] \<and>
   stretch 1500 \<lparr>sub_text = ''ok'', start_ms = 0, end_ms = 1000\<rparr>
     = \<lparr>sub_text = ''ok'', start_ms = 0, end_ms = 1500\<rparr>"
proof -
  let ?segs = "[\<lparr>seg_text = ''ok'', seg_start = 0::int, seg_end = 1000\<rparr>,
      \<lparr>seg_text = ''go'', seg_start = 1200, seg_end = 1900\<rparr>]"
  let ?c = "\<lparr>sub_text = ''ok'', start_ms = 0, end_ms = 1000\<rparr>"
  have out: "post_process_segments (\<lambda>x. x) ?segs 1500 1000 100 120
     = [\<lparr>sub_text = ''ok'', start_ms = 0, end_ms = 1500\<rparr>,
        \<lparr>sub_text = ''go'', start_ms = 1200, end_ms = 2700\<rparr>]"
    by (simp add: post_process_segments_def new_sub_def merge_step_def stretch_def strip_def
        isspace_def)
  note inst = emitted_duration_at_least_min [of "\<lambda>x. x" ?segs 1500 1000 100 120 ?c]
  have "list_all (\<lambda>r. 1500 \<le> end_ms r - start_ms r \<and> 1000 < end_ms r - start_ms r)
     [\<lparr>sub_text = ''ok'', start_ms = 0, end_ms = 1500\<rparr>,
      \<lparr>sub_text = ''go'', start_ms = 1200, end_ms = 2700\<rparr>]"
    using inst unfolding out by simp
  moreover have "stretch 1500 ?c = \<lparr>sub_text = ''ok'', start_ms = 0, end_ms = 1500\<rparr>"
    using inst by simp
  ultimately show ?thesis
    using out by (intro conjI)
qed

section \<open>Order of the emitted subtitles\<close>

text \<open>
  The starts of the output and of the accumulator, followed by the starts of the segments
  still to come, keep every order that the starts of the input have.
\<close>

lemma sorted_wrt_drop_middle:
  "sorted_wrt P (xs @ a # b # ys) \<Longrightarrow> sorted_wrt P (xs @ a # ys)"
  by (auto simp: sorted_wrt_append)

lemma merge_step_starts:
  assumes "sorted_wrt P (map start_ms (snd state) @ start_ms (fst state)
             # map (\<lambda>s. to_ms (seg_start s)) (s # segs))"
  shows "sorted_wrt P (map start_ms (snd (merge_step to_ms mn mx thr mc state s))
           @ start_ms (fst (merge_step to_ms mn mx thr mc state s))
           # map (\<lambda>s. to_ms (seg_start s)) segs)"
proof -
  obtain cur out where state: "state = (cur, out)"
    by (cases state)
  show ?thesis
  proof (cases "to_ms (seg_start s) - end_ms cur < thr \<and>
                int (length (sub_text cur @ '' '' @ strip (seg_text s))) \<le> mc \<and>
                to_ms (seg_end s) - start_ms cur \<le> mx")
    case True
    then have step: "merge_step to_ms mn mx thr mc (cur, out) s =
           (cur\<lparr>sub_text := sub_text cur @ '' '' @ strip (seg_text s),
                end_ms := to_ms (seg_end s)\<rparr>, out)"
      by (intro merge_step_merge) simp_all
    have "sorted_wrt P (map start_ms out @ start_ms cur # map (\<lambda>s. to_ms (seg_start s)) segs)"
      using assms sorted_wrt_drop_middle [of P "map start_ms out" "start_ms cur"]
      by (simp add: state)
    then show ?thesis
      unfolding state step by simp
  next
    case False
    then have step: "merge_step to_ms mn mx thr mc (cur, out) s =
           (new_sub to_ms s, out @ [stretch mn cur])"
      by (rule merge_step_cut)
    show ?thesis
      unfolding state step using assms by (simp add: state new_sub_def start_ms_stretch)
  qed
qed

lemma merge_loop_starts:
  assumes "sorted_wrt P (map start_ms (snd state) @ start_ms (fst state)
             # map (\<lambda>s. to_ms (seg_start s)) segs)"
  shows "sorted_wrt P (map start_ms (snd (merge_loop to_ms mn mx thr mc state segs))
           @ [start_ms (fst (merge_loop to_ms mn mx thr mc state segs))])"
  using assms
proof (induction segs arbitrary: state)
  case Nil
  then show ?case by simp
next
  case (Cons s segs)
  show ?case
    unfolding merge_loop.simps
    by (rule Cons.IH) (rule merge_step_starts [OF Cons.prems])
qed

lemma post_process_segments_starts:
  assumes "sorted_wrt P (map (\<lambda>s. to_ms (seg_start s)) segs)"
  shows "sorted_wrt P (map start_ms (post_process_segments to_ms segs mn mx thr mc))"
proof (cases segs)
  case Nil
  then show ?thesis by (simp add: post_process_segments_def)
next
  case (Cons first rest)
  have "sorted_wrt P (map start_ms (snd (merge_loop to_ms mn mx thr mc (new_sub to_ms first, []) rest))
           @ [start_ms (fst (merge_loop to_ms mn mx thr mc (new_sub to_ms first, []) rest))])"
    using assms Cons by (intro merge_loop_starts) (simp add: new_sub_def)
  then show ?thesis
    using Cons by (simp add: post_process_segments_def Let_def start_ms_stretch)
qed

lemma sorted_non_overlapping_starts:
  "sorted_non_overlapping to_ms segs \<Longrightarrow> sorted (map (\<lambda>s. to_ms (seg_start s)) segs)"
  by (induction to_ms segs rule: sorted_non_overlapping.induct) auto

text \<open>
  C3, as the claim states it, fails: a segment of zero length in milliseconds followed by a
  segment with the same start is sorted and does not overlap, and when the two are not
  merged (here the merged duration of 8000 exceeds the maximum of 7000) the two subtitles
  start at the same millisecond.
\<close>

theorem equal_starts_counterexample:
  "sorted_non_overlapping (\<lambda>x. x)
     [\<lparr>seg_text = ''a'', seg_start = 0, seg_end = 0\<rparr>,
      \<lparr>seg_text = ''b'', seg_start = 0, seg_end = 8000\<rparr>] \<and>
   post_process_segments (\<lambda>x. x)
     [\<lparr>seg_text = ''a'', seg_start = 0, seg_end = 0\<rparr>,
      \<lparr>seg_text = ''b'', seg_start = 0, seg_end = 8000\<rparr>] 1500 7000 500 120
     = [\<lparr>sub_text = ''a'', start_ms = 0, end_ms = 1500\<rparr>,
        \<lparr>sub_text = ''b'', start_ms = 0, end_ms = 8000\<rparr>] \<and>
   \<not> sorted_wrt (<) (map start_ms (post_process_segments (\<lambda>x. x)
     [\<lparr>seg_text = ''a'', seg_start = 0, seg_end = 0\<rparr>,
      \<lparr>seg_text = ''b'', seg_start = 0, seg_end = 8000\<rparr>] 1500 7000 500 120))"
proof -
  have out: "post_process_segments (\<lambda>x. x)
     [\<lparr>seg_text = ''a'', seg_start = 0::int, seg_end = 0\<rparr>,
      \<lparr>seg_text = ''b'', seg_start = 0, seg_end = 8000\<rparr>] 1500 7000 500 120
     = [\<lparr>sub_text = ''a'', start_ms = 0, end_ms = 1500\<rparr>,
        \<lparr>sub_text = ''b'', start_ms = 0, end_ms = 8000\<rparr>]"
    by (simp add: post_process_segments_def new_sub_def merge_step_def stretch_def strip_def
        isspace_def)
  show ?thesis
    unfolding out by simp
qed

text \<open>
  C3, amended. When the starts of the segments, in milliseconds, ascend strictly, the starts
  of the output ascend strictly. When the input is sorted and non-overlapping, the starts
  of the output ascend, possibly with equal neighbours.
\<close>

theorem output_starts_ascend:
  "(sorted_wrt (<) (map (\<lambda>s. to_ms (seg_start s)) segs) \<longrightarrow>
      sorted_wrt (<) (map start_ms (post_process_segments to_ms segs mn mx thr mc))) \<and>
   (sorted_non_overlapping to_ms segs \<longrightarrow>
      sorted (map start_ms (post_process_segments to_ms segs mn mx thr mc)))"
  using post_process_segments_starts [of "(<)" to_ms segs mn mx thr mc]
    post_process_segments_starts [of "(\<le>)" to_ms segs mn mx thr mc]
    sorted_non_overlapping_starts [of to_ms segs]
  by blast

theorem output_starts_ascend_witness:
  "sorted_wrt (<) (map (\<lambda>s. seg_start s)
     [\<lparr>seg_text = ''ok'', seg_start = 0::int, seg_end = 1000\<rparr>,
      \<lparr>seg_text = ''go'', seg_start = 1200, seg_end = 1900\<rparr>]) \<and>
   sorted_non_overlapping (\<lambda>x. x)
     [\<lparr>seg_text = ''ok'', seg_start = 0::int, seg_end = 1000\<rparr>,
      \<lparr>seg_text = ''go'', seg_start = 1200, seg_end = 1900\<rparr>] \<and>
   sorted_wrt (<) (map start_ms (post_process_segments (\<lambda>x. x)
     [\<lparr>seg_text = ''ok'', seg_start = 0, seg_end = 1000\<rparr>,
      \<lparr>seg_text = ''go'', seg_start = 1200, seg_end = 1900\<rparr>] 1500 7000 100 120)) \<and>
   sorted (map start_ms (post_process_segments (\<lambda>x. x)
     [\<lparr>seg_text = ''ok'', seg_start = 0, seg_end = 1000\<rparr>,
      \<lparr>seg_text = ''go'', seg_start = 1200, seg_end = 1900\<rparr>] 1500 7000 100 120)) \<and>
   map start_ms (post_process_segments (\<lambda>x. x)
     [\<lparr>seg_text = ''ok'', seg_start = 0, seg_end = 1000\<rparr>,
      \<lparr>seg_text = ''go'', seg_start = 1200, seg_end = 1900\<rparr>] 1500 7000 100 120) = [0, 1200]"
proof -
  let ?segs = "[\<lparr>seg_text = ''ok'', seg_start = 0::int, seg_end = 1000\<rparr>,
      \<lparr>seg_text = ''go'', seg_start = 1200, seg_end = 1900\<rparr>]"
  have a: "sorted_wrt (<) (map (\<lambda>s. seg_start s) ?segs)"
    by simp
  have b: "sorted_non_overlapping (\<lambda>x. x) ?segs"
    by simp
  have c: "map start_ms (post_process_segments (\<lambda>x. x) ?segs 1500 7000 100 120) = [0, 1200]"
    by (simp add: post_process_segments_def new_sub_def merge_step_def stretch_def strip_def
        isspace_def)
  note inst = output_starts_ascend [of "\<lambda>x. x" ?segs 1500 7000 100 120]
  have d: "sorted_wrt (<) (map start_ms (post_process_segments (\<lambda>x. x) ?segs 1500 7000 100 120))"
    using inst a by blast
  have e: "sorted (map start_ms (post_process_segments (\<lambda>x. x) ?segs 1500 7000 100 120))"
    using inst b by blast
  show ?thesis
    by (rule conjI [OF a conjI [OF b conjI [OF d conjI [OF e c]]]])
qed

section \<open>Text carried by the emitted subtitles\<close>

lemma join_snoc: "xs \<noteq> [] \<Longrightarrow> join sep (xs @ [x]) = join sep xs @ sep @ x"
  by (induction sep xs rule: join.induct) auto

lemma join_append:
  "xs \<noteq> [] \<Longrightarrow> ys \<noteq> [] \<Longrightarrow> join sep (xs @ ys) = join sep xs @ sep @ join sep ys"
proof (induction ys arbitrary: xs rule: rev_induct)
  case Nil
  then show ?case by simp
next
  case (snoc y ys)
  show ?case
  proof (cases "ys = []")
    case True
    then show ?thesis using snoc.prems by (simp add: join_snoc)
  next
    case False
    then show ?thesis
      using snoc.IH [of xs] snoc.prems(1) join_snoc [of "xs @ ys" sep y] join_snoc [of ys sep y]
      by simp
  qed
qed

text \<open>Joining the joined blocks is joining all the texts, provided no block is empty.\<close>

lemma join_blocks:
  "[] \<notin> set bs \<Longrightarrow> join sep (map (\<lambda>b. join sep (map f b)) bs) = join sep (map f (concat bs))"
proof (induction bs rule: rev_induct)
  case Nil
  then show ?case by simp
next
  case (snoc b bs)
  show ?case
  proof (cases "bs = []")
    case True
    then show ?thesis by simp
  next
    case False
    have b: "b \<noteq> []" and bs: "[] \<notin> set bs"
      using snoc.prems by auto
    have "concat bs \<noteq> []"
      using False bs by (cases bs) auto
    then have "join sep (map f (concat bs) @ map f b)
                 = join sep (map f (concat bs)) @ sep @ join sep (map f b)"
      using b by (intro join_append) simp_all
    moreover have "join sep (map (\<lambda>b. join sep (map f b)) bs @ [join sep (map f b)])
                 = join sep (map (\<lambda>b. join sep (map f b)) bs) @ sep @ join sep (map f b)"
      using False by (intro join_snoc) simp
    ultimately show ?thesis
      using snoc.IH [OF bs] by simp
  qed
qed

text \<open>
  The invariant of the sweep: the segments read so far are cut into consecutive non-empty
  blocks, one per closed subtitle and a last one for the accumulator, and each text is the
  trimmed texts of its block joined by single blanks.
\<close>

lemma merge_step_blocks:
  assumes "concat bs @ b = consumed" and "b \<noteq> []" and "[] \<notin> set bs"
    and "sub_text cur = join '' '' (map (\<lambda>s. strip (seg_text s)) b)"
    and "map sub_text out = map (\<lambda>b. join '' '' (map (\<lambda>s. strip (seg_text s)) b)) bs"
  shows "\<exists>bs' b'. concat bs' @ b' = consumed @ [s] \<and> b' \<noteq> [] \<and> [] \<notin> set bs' \<and>
           sub_text (fst (merge_step to_ms mn mx thr mc (cur, out) s))
             = join '' '' (map (\<lambda>s. strip (seg_text s)) b') \<and>
           map sub_text (snd (merge_step to_ms mn mx thr mc (cur, out) s))
             = map (\<lambda>b. join '' '' (map (\<lambda>s. strip (seg_text s)) b)) bs'"
proof (cases "to_ms (seg_start s) - end_ms cur < thr \<and>
              int (length (sub_text cur @ '' '' @ strip (seg_text s))) \<le> mc \<and>
              to_ms (seg_end s) - start_ms cur \<le> mx")
  case True
  then have step: "merge_step to_ms mn mx thr mc (cur, out) s =
           (cur\<lparr>sub_text := sub_text cur @ '' '' @ strip (seg_text s),
                end_ms := to_ms (seg_end s)\<rparr>, out)"
    by (intro merge_step_merge) simp_all
  have "join '' '' (map (\<lambda>s. strip (seg_text s)) (b @ [s]))
          = sub_text cur @ '' '' @ strip (seg_text s)"
    using assms(2,4) join_snoc [of "map (\<lambda>s. strip (seg_text s)) b" "'' ''" "strip (seg_text s)"]
    by simp
  then have "concat bs @ (b @ [s]) = consumed @ [s] \<and> b @ [s] \<noteq> [] \<and> [] \<notin> set bs \<and>
           sub_text (fst (merge_step to_ms mn mx thr mc (cur, out) s))
             = join '' '' (map (\<lambda>s. strip (seg_text s)) (b @ [s])) \<and>
           map sub_text (snd (merge_step to_ms mn mx thr mc (cur, out) s))
             = map (\<lambda>b. join '' '' (map (\<lambda>s. strip (seg_text s)) b)) bs"
    using assms(1,3,5) unfolding step by simp
  then show ?thesis by blast
next
  case False
  then have step: "merge_step to_ms mn mx thr mc (cur, out) s =
           (new_sub to_ms s, out @ [stretch mn cur])"
    by (rule merge_step_cut)
  have "concat (bs @ [b]) @ [s] = consumed @ [s] \<and> [s] \<noteq> [] \<and> [] \<notin> set (bs @ [b]) \<and>
           sub_text (fst (merge_step to_ms mn mx thr mc (cur, out) s))
             = join '' '' (map (\<lambda>s. strip (seg_text s)) [s]) \<and>
           map sub_text (snd (merge_step to_ms mn mx thr mc (cur, out) s))
             = map (\<lambda>b. join '' '' (map (\<lambda>s. strip (seg_text s)) b)) (bs @ [b])"
    using assms unfolding step by (simp add: new_sub_def sub_text_stretch)
  then show ?thesis by blast
qed

lemma merge_loop_blocks:
  "\<exists>bs b. concat bs @ b = first # pre \<and> b \<noteq> [] \<and> [] \<notin> set bs \<and>
     sub_text (fst (merge_loop to_ms mn mx thr mc (new_sub to_ms first, []) pre))
       = join '' '' (map (\<lambda>s. strip (seg_text s)) b) \<and>
     map sub_text (snd (merge_loop to_ms mn mx thr mc (new_sub to_ms first, []) pre))
       = map (\<lambda>b. join '' '' (map (\<lambda>s. strip (seg_text s)) b)) bs"
proof (induction pre rule: rev_induct)
  case Nil
  have "concat [] @ [first] = first # [] \<and> [first] \<noteq> [] \<and> [] \<notin> set ([] :: 'a segment list list) \<and>
     sub_text (fst (merge_loop to_ms mn mx thr mc (new_sub to_ms first, []) []))
       = join '' '' (map (\<lambda>s. strip (seg_text s)) [first]) \<and>
     map sub_text (snd (merge_loop to_ms mn mx thr mc (new_sub to_ms first, []) []))
       = map (\<lambda>b. join '' '' (map (\<lambda>s. strip (seg_text s)) b)) []"
    by (simp add: new_sub_def)
  then show ?case by blast
next
  case (snoc s pre)
  obtain cur out where state: "merge_loop to_ms mn mx thr mc (new_sub to_ms first, []) pre = (cur, out)"
    by (cases "merge_loop to_ms mn mx thr mc (new_sub to_ms first, []) pre")
  obtain bs b where inv: "concat bs @ b = first # pre" "b \<noteq> []" "[] \<notin> set bs"
      "sub_text cur = join '' '' (map (\<lambda>s. strip (seg_text s)) b)"
      "map sub_text out = map (\<lambda>b. join '' '' (map (\<lambda>s. strip (seg_text s)) b)) bs"
    using snoc unfolding state by auto
  show ?case
    using merge_step_blocks [OF inv, where to_ms = to_ms and mn = mn and mx = mx and thr = thr
        and mc = mc and s = s]
    by (simp add: merge_loop_snoc state)
qed

text \<open>
  C10. The output carries the transcribed text unchanged: the input is cut into consecutive
  non-empty blocks, in order, one block per output subtitle, and the text of each subtitle
  is the trimmed texts of its block joined by single blanks. Joined in turn by single
  blanks, the texts of the output are the trimmed texts of all the segments joined by
  single blanks.
\<close>

theorem post_process_segments_preserves_text:
  "(\<exists>blocks. concat blocks = segs \<and> [] \<notin> set blocks \<and>
      map sub_text (post_process_segments to_ms segs mn mx thr mc)
        = map (\<lambda>b. join '' '' (map (\<lambda>s. strip (seg_text s)) b)) blocks) \<and>
   join '' '' (map sub_text (post_process_segments to_ms segs mn mx thr mc))
     = join '' '' (map (\<lambda>s. strip (seg_text s)) segs)"
proof -
  have blocks: "\<exists>blocks. concat blocks = segs \<and> [] \<notin> set blocks \<and>
      map sub_text (post_process_segments to_ms segs mn mx thr mc)
        = map (\<lambda>b. join '' '' (map (\<lambda>s. strip (seg_text s)) b)) blocks"
  proof (cases segs)
    case Nil
    then have "concat [] = segs \<and> [] \<notin> set ([] :: 'a segment list list) \<and>
      map sub_text (post_process_segments to_ms segs mn mx thr mc)
        = map (\<lambda>b. join '' '' (map (\<lambda>s. strip (seg_text s)) b)) []"
      by (simp add: post_process_segments_def)
    then show ?thesis by blast
  next
    case (Cons first rest)
    obtain bs b where inv: "concat bs @ b = first # rest" "b \<noteq> []" "[] \<notin> set bs"
      "sub_text (fst (merge_loop to_ms mn mx thr mc (new_sub to_ms first, []) rest))
         = join '' '' (map (\<lambda>s. strip (seg_text s)) b)"
      "map sub_text (snd (merge_loop to_ms mn mx thr mc (new_sub to_ms first, []) rest))
         = map (\<lambda>b. join '' '' (map (\<lambda>s. strip (seg_text s)) b)) bs"
      using merge_loop_blocks [of first rest to_ms mn mx thr mc] by auto
    have "concat (bs @ [b]) = segs \<and> [] \<notin> set (bs @ [b]) \<and>
      map sub_text (post_process_segments to_ms segs mn mx thr mc)
        = map (\<lambda>b. join '' '' (map (\<lambda>s. strip (seg_text s)) b)) (bs @ [b])"
      using inv Cons by (simp add: post_process_segments_def Let_def sub_text_stretch)
    then show ?thesis by blast
  qed
  then obtain blocks where b: "concat blocks = segs" "[] \<notin> set blocks"
      "map sub_text (post_process_segments to_ms segs mn mx thr mc)
        = map (\<lambda>b. join '' '' (map (\<lambda>s. strip (seg_text s)) b)) blocks"
    by auto
  have "join '' '' (map sub_text (post_process_segments to_ms segs mn mx thr mc))
     = join '' '' (map (\<lambda>s. strip (seg_text s)) segs)"
    unfolding b(3) using join_blocks [OF b(2), of "'' ''" "\<lambda>s. strip (seg_text s)"] b(1)
    by simp
  with blocks show ?thesis
    by (rule conjI)
qed

theorem post_process_segments_preserves_text_witness:
  "join '' '' (map sub_text (post_process_segments (\<lambda>x. x)
     [\<lparr>seg_text = '' ok'', seg_start = 0, seg_end = 1000\<rparr>,
      \<lparr>seg_text = '' go '', seg_start = 1200, seg_end = 1900\<rparr>,
      \<lparr>seg_text = '' on'', seg_start = 2000, seg_end = 2500\<rparr>] 1500 7000 500 120))
     = ''ok go on'' \<and>
   map sub_text (post_process_segments (\<lambda>x. x)
     [\<lparr>seg_text = '' ok'', seg_start = 0, seg_end = 1000\<rparr>,
      \<lparr>seg_text = '' go '', seg_start = 1200, seg_end = 1900\<rparr>,
      \<lparr>seg_text = '' on'', seg_start = 2000, seg_end = 2500\<rparr>] 1500 7000 200 120)
     = [''ok'', ''go on'']"
proof -
  let ?segs = "[\<lparr>seg_text = '' ok'', seg_start = 0::int, seg_end = 1000\<rparr>,
      \<lparr>seg_text = '' go '', seg_start = 1200, seg_end = 1900\<rparr>,
      \<lparr>seg_text = '' on'', seg_start = 2000, seg_end = 2500\<rparr>]"
  have "join '' '' (map (\<lambda>s. strip (seg_text s)) ?segs) = ''ok go on''"
    by (simp add: strip_def isspace_def)
  then have a: "join '' '' (map sub_text (post_process_segments (\<lambda>x. x) ?segs 1500 7000 500 120))
     = ''ok go on''"
    using post_process_segments_preserves_text [of ?segs "\<lambda>x. x" 1500 7000 500 120]
    by simp
  have b: "map sub_text (post_process_segments (\<lambda>x. x) ?segs 1500 7000 200 120)
     = [''ok'', ''go on'']"
    by (simp add: post_process_segments_def new_sub_def merge_step_def stretch_def strip_def
        isspace_def)
  show ?thesis
    by (rule conjI [OF a b])
qed

section \<open>Failures of the translation and of the run\<close>

lemma translate_with_deepl_placeholder:
  "translator x (upper s) (upper t) \<noteq> Inl BaseExceptionOnly \<Longrightarrow>
     translate_with_deepl x translator s t = Inr (translated_or_placeholder translator s t x)"
  by (simp add: translate_with_deepl_def translated_or_placeholder_def
      split: sum.splits exn.splits)

lemma write_subs_all:
  assumes "\<forall>sub\<in>set subs. translator (sub_text sub) (upper s) (upper t) \<noteq> Inl BaseExceptionOnly"
  shows "write_subs translator s t i subs f =
           (f @ concat (map (\<lambda>(k, sub). srt_entry k sub
                               (translated_or_placeholder translator s t (sub_text sub)))
                          (zip [i..<i + length subs] subs)), None)"
  using assms
proof (induction subs arbitrary: i f)
  case Nil
  then show ?case by simp
next
  case (Cons sub subs)
  have here: "translate_with_deepl (sub_text sub) translator s t =
                Inr (translated_or_placeholder translator s t (sub_text sub))"
    using Cons.prems by (intro translate_with_deepl_placeholder) simp
  have rest: "\<forall>sub\<in>set subs. translator (sub_text sub) (upper s) (upper t) \<noteq> Inl BaseExceptionOnly"
    using Cons.prems by simp
  have idx: "[i..<i + length (sub # subs)] = i # [i + 1..<i + 1 + length subs]"
    using upt_conv_Cons [of i "i + Suc (length subs)"] by simp
  show ?case
    unfolding idx using Cons.IH [OF rest, of "i + 1"] by (simp add: here)
qed

text \<open>
  C6. When the translation call raises a DeepL error, \<open>translate_with_deepl\<close> returns
  \<open>[TRANSLATION ERROR]: \<close> followed by the original text; when it raises another exception
  derived from \<open>Exception\<close>, it returns \<open>[UNEXPECTED ERROR]: \<close> followed by the original
  text. In both cases it returns, so the writing loop goes on: if no call raises an
  exception outside \<open>Exception\<close>, the loop ends without an exception and has written one
  entry per subtitle, in order, numbered from one, with the start and end of the subtitle
  and the translation or the placeholder as its text.
\<close>

theorem translation_failure_recovered:
  "(translator x (upper s) (upper t) = Inl DeepLException \<longrightarrow>
      translate_with_deepl x translator s t = Inr (''[TRANSLATION ERROR]: '' @ x)) \<and>
   (translator x (upper s) (upper t) = Inl OtherException \<longrightarrow>
      translate_with_deepl x translator s t = Inr (''[UNEXPECTED ERROR]: '' @ x)) \<and>
   ((\<forall>sub\<in>set subs. translator (sub_text sub) (upper s) (upper t) \<noteq> Inl BaseExceptionOnly) \<longrightarrow>
      write_subs translator s t i subs f =
        (f @ concat (map (\<lambda>(k, sub). srt_entry k sub
                            (translated_or_placeholder translator s t (sub_text sub)))
                       (zip [i..<i + length subs] subs)), None))"
proof (intro conjI impI)
  assume "translator x (upper s) (upper t) = Inl DeepLException"
  then show "translate_with_deepl x translator s t = Inr (''[TRANSLATION ERROR]: '' @ x)"
    by (simp add: translate_with_deepl_def)
next
  assume "translator x (upper s) (upper t) = Inl OtherException"
  then show "translate_with_deepl x translator s t = Inr (''[UNEXPECTED ERROR]: '' @ x)"
    by (simp add: translate_with_deepl_def)
next
  assume "\<forall>sub\<in>set subs. translator (sub_text sub) (upper s) (upper t) \<noteq> Inl BaseExceptionOnly"
  then show "write_subs translator s t i subs f =
        (f @ concat (map (\<lambda>(k, sub). srt_entry k sub
                            (translated_or_placeholder translator s t (sub_text sub)))
                       (zip [i..<i + length subs] subs)), None)"
    by (rule write_subs_all)
qed

theorem translation_failure_recovered_witness:
  "translate_with_deepl ''b''
     (\<lambda>x s t. if x = ''b'' then Inl DeepLException else if x = ''c'' then Inl OtherException
               else Inr x) ''ko'' ''pt-br''
     = Inr ''[TRANSLATION ERROR]: b'' \<and>
   translate_with_deepl ''c''
     (\<lambda>x s t. if x = ''b'' then Inl DeepLException else if x = ''c'' then Inl OtherException
               else Inr x) ''ko'' ''pt-br''
     = Inr ''[UNEXPECTED ERROR]: c'' \<and>
   write_subs
     (\<lambda>x s t. if x = ''b'' then Inl DeepLException else if x = ''c'' then Inl OtherException
               else Inr x) ''ko'' ''pt-br'' 0
     [\<lparr>sub_text = ''b'', start_ms = 0, end_ms = 1500\<rparr>,
      \<lparr>sub_text = ''a'', start_ms = 2000, end_ms = 3661005\<rparr>] []
     = (''1'' @ [CHR 0x0A] @ ''00:00:00,000 --> 00:00:01,500'' @ [CHR 0x0A]
          @ ''[TRANSLATION ERROR]: b'' @ [CHR 0x0A, CHR 0x0A]
          @ ''2'' @ [CHR 0x0A] @ ''00:00:02,000 --> 01:01:01,005'' @ [CHR 0x0A]
          @ ''a'' @ [CHR 0x0A, CHR 0x0A], None)"
proof -
  let ?tr = "\<lambda>(x::string) (s::string) (t::string).
               if x = ''b'' then Inl DeepLException else if x = ''c'' then Inl OtherException
               else Inr x"
  let ?subs = "[\<lparr>sub_text = ''b'', start_ms = 0, end_ms = 1500\<rparr>,
      \<lparr>sub_text = ''a'', start_ms = 2000, end_ms = 3661005\<rparr>]"
  note inst_b = translation_failure_recovered [of ?tr "''b''" "''ko''" "''pt-br''" ?subs 0 "[]"]
  note inst_c = translation_failure_recovered [of ?tr "''c''" "''ko''" "''pt-br''" ?subs 0 "[]"]
  have a: "translate_with_deepl ''b'' ?tr ''ko'' ''pt-br'' = Inr ''[TRANSLATION ERROR]: b''"
    using inst_b by simp
  have b: "translate_with_deepl ''c'' ?tr ''ko'' ''pt-br'' = Inr ''[UNEXPECTED ERROR]: c''"
    using inst_c by simp
  have e1: "srt_entry 0 \<lparr>sub_text = ''b'', start_ms = 0, end_ms = 1500\<rparr> ''[TRANSLATION ERROR]: b''
     = ''1'' @ [CHR 0x0A] @ ''00:00:00,000 --> 00:00:01,500'' @ [CHR 0x0A]
          @ ''[TRANSLATION ERROR]: b'' @ [CHR 0x0A, CHR 0x0A]"
    by code_simp
  have e2: "srt_entry 1 \<lparr>sub_text = ''a'', start_ms = 2000, end_ms = 3661005\<rparr> ''a''
     = ''2'' @ [CHR 0x0A] @ ''00:00:02,000 --> 01:01:01,005'' @ [CHR 0x0A]
          @ ''a'' @ [CHR 0x0A, CHR 0x0A]"
    by code_simp
  have hyp: "\<forall>sub\<in>set ?subs. ?tr (sub_text sub) (upper ''ko'') (upper ''pt-br'')
               \<noteq> Inl BaseExceptionOnly"
    by simp
  have "write_subs ?tr ''ko'' ''pt-br'' 0 ?subs []
     = ([] @ concat (map (\<lambda>(k, sub). srt_entry k sub
                            (translated_or_placeholder ?tr ''ko'' ''pt-br'' (sub_text sub)))
                       (zip [0..<0 + length ?subs] ?subs)), None)"
    by (rule inst_b [THEN conjunct2, THEN conjunct2, THEN mp, OF hyp])
  also have "[0..<0 + length ?subs] = [0, 1]"
    by (simp add: upt_conv_Cons)
  finally have c: "write_subs ?tr ''ko'' ''pt-br'' 0 ?subs []
     = (''1'' @ [CHR 0x0A] @ ''00:00:00,000 --> 00:00:01,500'' @ [CHR 0x0A]
          @ ''[TRANSLATION ERROR]: b'' @ [CHR 0x0A, CHR 0x0A]
          @ ''2'' @ [CHR 0x0A] @ ''00:00:02,000 --> 01:01:01,005'' @ [CHR 0x0A]
          @ ''a'' @ [CHR 0x0A, CHR 0x0A], None)"
    using e1 e2 by (simp add: translated_or_placeholder_def)
  show ?thesis
    by (rule conjI [OF a conjI [OF b c]])
qed

text \<open>
  C7. The temporary audio file is removed on the last line of the run only: it is gone
  exactly when the run returns, and it stays behind whenever the run ends by \<open>sys.exit\<close> or
  by an exception. When the authentication with the translation service fails, the run
  exits with status 1 and the file is still there.
\<close>

theorem temp_audio_left_on_failure:
  "temp_audio_exists (generate_srt_subtitles_with_whisper_deepl to_ms c a b)
     = (outcome (generate_srt_subtitles_with_whisper_deepl to_ms c a b) \<noteq> Returned) \<and>
   generate_srt_subtitles_with_whisper_deepl (\<lambda>x. x)
     \<lparr>load_model = None,
      transcribe = Inr [\<lparr>seg_text = ''ok'', seg_start = 0, seg_end = 1000\<rparr>],
      get_usage = Some DeepLException,
      translate_text = (\<lambda>x s t. Inr x)\<rparr> ''KO'' ''PT-BR''
     = \<lparr>outcome = Exited 1, temp_audio_exists = True, srt_file = None\<rparr>"
proof -
  have "temp_audio_exists (generate_srt_subtitles_with_whisper_deepl to_ms c a b)
     = (outcome (generate_srt_subtitles_with_whisper_deepl to_ms c a b) \<noteq> Returned)"
    by (simp add: generate_srt_subtitles_with_whisper_deepl_def Let_def
        split: option.splits sum.splits prod.splits)
  moreover have "generate_srt_subtitles_with_whisper_deepl (\<lambda>x. x)
     \<lparr>load_model = None,
      transcribe = Inr [\<lparr>seg_text = ''ok'', seg_start = 0::int, seg_end = 1000\<rparr>],
      get_usage = Some DeepLException,
      translate_text = (\<lambda>x s t. Inr x)\<rparr> ''KO'' ''PT-BR''
     = \<lparr>outcome = Exited 1, temp_audio_exists = True, srt_file = None\<rparr>"
    by (simp add: generate_srt_subtitles_with_whisper_deepl_def)
  ultimately show ?thesis
    by (rule conjI)
qed

end
